theory Spec2Isabelle
  imports Main "HOL-Library.Word" "HOL-Library.Multiset"
begin

unbundle bit_operations_syntax

section \<open>Data model\<close>

text \<open>
  \<^verbatim>\<open>typedef unsigned int chainEntry;\<close> is a 32-bit word. A \<^verbatim>\<open>char\<close> buffer (a digest) is a
  list of 8-bit words holding the meaningful prefix of the buffer. The struct
  \<^verbatim>\<open>chain { chainEntry startpoint; chainEntry endpoint; }\<close> is a record, and a table is
  the list of the records of the mapped file.
\<close>

type_synonym chainEntry = "32 word"
type_synonym byte = "8 word"

record chain =
  startpoint :: chainEntry
  endpoint :: chainEntry

text \<open>
  C leaves a read outside a buffer undefined. The model makes every such read a
  value: \<open>BadBufferRead\<close> for a digest buffer, \<open>BadTableRead i\<close> for the table record
  at an index \<open>i\<close> at or past the end of the table, \<open>BadTableIndex i\<close> for a negative
  index \<open>i\<close>.
\<close>

datatype fault = BadBufferRead | BadTableRead nat | BadTableIndex int

definition table_at :: "chain list \<Rightarrow> nat \<Rightarrow> fault + chain" where
  "table_at table i = (if i < length table then Inr (table ! i) else Inl (BadTableRead i))"


section \<open>Reduction\<close>

text \<open>
  \<^verbatim>\<open>*hashInt\<close> with \<^verbatim>\<open>hashInt = (chainEntry *) hash + k\<close>: the four bytes at \<open>4k .. 4k+3\<close>
  read as one word in host byte order, which is little-endian on the x86 machines the
  program is built for.
\<close>

definition load_word :: "byte list \<Rightarrow> nat \<Rightarrow> chainEntry" where
  "load_word hash k =
     ucast (hash ! (4 * k))
     OR push_bit 8 (ucast (hash ! (4 * k + 1)))
     OR push_bit 16 (ucast (hash ! (4 * k + 2)))
     OR push_bit 24 (ucast (hash ! (4 * k + 3)))"

text \<open>
  \<^verbatim>\<open>(chainEntry) hash[j]\<close>: \<^verbatim>\<open>hash\<close> is a plain \<^verbatim>\<open>char *\<close>, and plain \<^verbatim>\<open>char\<close> is
  signed in the x86 and x86-64 ABIs, so the conversion to \<^verbatim>\<open>unsigned int\<close> sign-extends.
\<close>

definition char_to_chainEntry :: "byte \<Rightarrow> chainEntry" where
  "char_to_chainEntry c = scast c"

text \<open>First loop of \<^verbatim>\<open>reduce\<close>: \<^verbatim>\<open>for (i = 0; i < hashLen / 4; i++, hashInt++) reduced ^= *hashInt;\<close>\<close>

function reduce_xor_loop :: "byte list \<Rightarrow> nat \<Rightarrow> nat \<Rightarrow> chainEntry \<Rightarrow> chainEntry" where
  "reduce_xor_loop hash hashLen i reduced =
     (if i < hashLen div 4
      then reduce_xor_loop hash hashLen (i + 1) (reduced XOR load_word hash i)
      else reduced)"
  by pat_completeness auto
termination
  by (relation "measure (\<lambda>(hash, hashLen, i, reduced). hashLen div 4 - i)") auto

text \<open>Second loop: \<^verbatim>\<open>for (i = 0; i < hashLen % 4; i++) reduced += (chainEntry) hash[hashLen - 1 - i];\<close>\<close>

function reduce_add_loop :: "byte list \<Rightarrow> nat \<Rightarrow> nat \<Rightarrow> chainEntry \<Rightarrow> chainEntry" where
  "reduce_add_loop hash hashLen i reduced =
     (if i < hashLen mod 4
      then reduce_add_loop hash hashLen (i + 1)
             (reduced + char_to_chainEntry (hash ! (hashLen - 1 - i)))
      else reduced)"
  by pat_completeness auto
termination
  by (relation "measure (\<lambda>(hash, hashLen, i, reduced). hashLen mod 4 - i)") auto

declare reduce_xor_loop.simps [simp del] reduce_add_loop.simps [simp del]

text \<open>
  \<^verbatim>\<open>reduce\<close> reads exactly the bytes \<open>0 .. hashLen - 1\<close> of the buffer, so it is defined
  when the buffer holds at least \<open>hashLen\<close> bytes; \<open>reduce_value\<close> is the value it then
  returns.
\<close>

definition reduce_value :: "byte list \<Rightarrow> nat \<Rightarrow> chainEntry \<Rightarrow> chainEntry" where
  "reduce_value hash hashLen round =
     reduce_add_loop hash hashLen 0 (reduce_xor_loop hash hashLen 0 0) XOR round"

definition reduce :: "byte list \<Rightarrow> nat \<Rightarrow> chainEntry \<Rightarrow> fault + chainEntry" where
  "reduce hash hashLen round =
     (if hashLen \<le> length hash
      then Inr (reduce_value hash hashLen round)
      else Inl BadBufferRead)"

text \<open>
  \<^verbatim>\<open>!memcmp(a, b, n)\<close>: the first \<open>n\<close> bytes of both buffers are read and compared.
\<close>

definition memcmp_zero :: "byte list \<Rightarrow> byte list \<Rightarrow> nat \<Rightarrow> fault + bool" where
  "memcmp_zero a b n =
     (if n \<le> length a \<and> n \<le> length b then Inr (take n a = take n b) else Inl BadBufferRead)"

section \<open>Sorting: \<^verbatim>\<open>swap\<close> and \<^verbatim>\<open>quickSortTable\<close>\<close>







section \<open>Lookup: \<^verbatim>\<open>searchTable\<close>, \<^verbatim>\<open>regenerateChain\<close>, \<^verbatim>\<open>searchHashInMemory\<close>\<close>

text \<open>
  The inner loop of \<^verbatim>\<open>searchTable\<close>,
  \<^verbatim>\<open>while (mid >= 0 && endpoint == table[mid--].endpoint);\<close>, with \<^verbatim>\<open>long mid\<close>.
  The decrement happens at every evaluation of the second operand, whether the comparison
  succeeds or not. The result is the value of \<^verbatim>\<open>mid\<close> after the loop.
\<close>

function searchTable_walk_back :: "chain list \<Rightarrow> chainEntry \<Rightarrow> int \<Rightarrow> fault + int" where
  "searchTable_walk_back table endpoint' mid =
     (if mid \<ge> 0
      then (case table_at table (nat mid) of
              Inl f \<Rightarrow> Inl f
            | Inr c \<Rightarrow>
                if endpoint' = endpoint c
                then searchTable_walk_back table endpoint' (mid - 1)
                else Inr (mid - 1))
      else Inr mid)"
  by pat_completeness auto
termination
  by (relation "measure (\<lambda>(table, endpoint', mid). nat (mid + 1))") auto

declare searchTable_walk_back.simps [simp del]

text \<open>
  The \<^verbatim>\<open>while (beg < end)\<close> loop of \<^verbatim>\<open>searchTable\<close>. \<^verbatim>\<open>beg\<close> and \<^verbatim>\<open>end\<close> are
  \<^verbatim>\<open>unsigned int\<close>, so \<^verbatim>\<open>beg + end\<close> wraps around at \<open>2 ^ 32\<close>; \<^verbatim>\<open>mid\<close> is a
  64-bit \<^verbatim>\<open>long\<close>. With wrap-around the loop need not terminate on every input, so it is a
  partial function: \<open>None\<close> is the loop that never returns. The result is the return
  value and the new content of \<^verbatim>\<open>*index\<close>.
\<close>

partial_function (option) searchTable_loop ::
  "chain list \<Rightarrow> chainEntry \<Rightarrow> chainEntry \<Rightarrow> 32 word \<Rightarrow> 32 word
     \<Rightarrow> (fault + int \<times> chainEntry) option" where
  "searchTable_loop table endpoint' index beg end' =
     (if beg < end'
      then (let mid = uint ((beg + end') div 2) in
            case table_at table (nat mid) of
              Inl f \<Rightarrow> Some (Inl f)
            | Inr c \<Rightarrow>
                if endpoint' < endpoint c
                then searchTable_loop table endpoint' index beg (word_of_int mid)
                else if endpoint' > endpoint c
                then searchTable_loop table endpoint' index (word_of_int (mid + 1)) end'
                else (case searchTable_walk_back table endpoint' mid of
                        Inl f \<Rightarrow> Some (Inl f)
                      | Inr mid' \<Rightarrow>
                          Some (Inr (1, if mid' < 0 then 0 else word_of_int (mid' + 1)))))
      else Some (Inr (0, index)))"

declare searchTable_loop.simps [code]

text \<open>
  \<^verbatim>\<open>searchTable(table, chainNum, endpoint, &index)\<close> with \<^verbatim>\<open>int chainNum\<close>:
  \<^verbatim>\<open>unsigned int beg = 0, end = chainNum - 1;\<close>
\<close>

definition searchTable ::
  "chain list \<Rightarrow> int \<Rightarrow> chainEntry \<Rightarrow> chainEntry \<Rightarrow> (fault + int \<times> chainEntry) option" where
  "searchTable table chainNum endpoint' index =
     searchTable_loop table endpoint' index 0 (word_of_int (chainNum - 1))"

text \<open>
  \<^verbatim>\<open>regenerateChain\<close>: the hash function is a pure function from a seed to the digest it
  writes into \<^verbatim>\<open>buf\<close> and returns. The loop counter is an \<^verbatim>\<open>int\<close> compared with the
  \<^verbatim>\<open>unsigned int chainLen\<close>; it is a natural number here, which is what the source
  computes for \<open>chainLen < 2 ^ 31\<close>. The result is the return value and the content of
  \<^verbatim>\<open>*seed\<close>.
\<close>

function regenerateChain_loop ::
  "nat \<Rightarrow> (chainEntry \<Rightarrow> byte list) \<Rightarrow> nat \<Rightarrow> byte list \<Rightarrow> nat \<Rightarrow> chainEntry \<Rightarrow> chainEntry
     \<Rightarrow> fault + int \<times> chainEntry" where
  "regenerateChain_loop chainLen hashFunc hashLen targetHash i tmp seed =
     (if i < chainLen
      then (case memcmp_zero (hashFunc tmp) targetHash hashLen of
              Inl f \<Rightarrow> Inl f
            | Inr True \<Rightarrow> Inr (1, tmp)
            | Inr False \<Rightarrow>
                (case reduce (hashFunc tmp) hashLen (of_nat i) of
                   Inl f \<Rightarrow> Inl f
                 | Inr tmp' \<Rightarrow>
                     regenerateChain_loop chainLen hashFunc hashLen targetHash (i + 1) tmp' seed))
      else Inr (0, seed))"
  by pat_completeness auto
termination
  by (relation "measure (\<lambda>(chainLen, hashFunc, hashLen, targetHash, i, tmp, seed). chainLen - i)")
    auto

declare regenerateChain_loop.simps [simp del]

definition regenerateChain ::
  "chainEntry \<Rightarrow> nat \<Rightarrow> (chainEntry \<Rightarrow> byte list) \<Rightarrow> nat \<Rightarrow> byte list \<Rightarrow> chainEntry
     \<Rightarrow> fault + int \<times> chainEntry" where
  "regenerateChain startpoint' chainLen hashFunc hashLen targetHash seed =
     regenerateChain_loop chainLen hashFunc hashLen targetHash 0 startpoint' seed"

text \<open>
  The inner loop of \<^verbatim>\<open>searchHashInMemory\<close>,
  \<^verbatim>\<open>for (i = j; i < chainLen-1; i++) { r = reduce(tmpHash, hashLen, i); tmpHash = hashFunc(r, buf); }\<close>.
  The result is \<^verbatim>\<open>tmpHash\<close> and \<^verbatim>\<open>i\<close> after the loop.
\<close>

function searchHashInMemory_walk ::
  "nat \<Rightarrow> (chainEntry \<Rightarrow> byte list) \<Rightarrow> nat \<Rightarrow> nat \<Rightarrow> byte list \<Rightarrow> fault + byte list \<times> nat" where
  "searchHashInMemory_walk chainLen hashFunc hashLen i tmpHash =
     (if i < chainLen - 1
      then (case reduce tmpHash hashLen (of_nat i) of
              Inl f \<Rightarrow> Inl f
            | Inr r \<Rightarrow> searchHashInMemory_walk chainLen hashFunc hashLen (i + 1) (hashFunc r))
      else Inr (tmpHash, i))"
  by pat_completeness auto
termination
  by (relation "measure (\<lambda>(chainLen, hashFunc, hashLen, i, tmpHash). chainLen - 1 - i)") auto

declare searchHashInMemory_walk.simps [simp del]

text \<open>
  The \<^verbatim>\<open>do { ... } while (table[index].endpoint == r);\<close> loop of
  \<^verbatim>\<open>searchHashInMemory\<close>. \<^verbatim>\<open>index\<close> is a 32-bit \<^verbatim>\<open>chainEntry\<close>. The loop tests no
  bound: a read at or past the end of the table is the fault \<open>BadTableRead\<close>. The
  return value 1 is the \<^verbatim>\<open>return 1\<close> of the function, 0 is the normal end of the loop.
\<close>

partial_function (option) searchHashInMemory_run ::
  "chain list \<Rightarrow> nat \<Rightarrow> (chainEntry \<Rightarrow> byte list) \<Rightarrow> nat \<Rightarrow> byte list \<Rightarrow> chainEntry
     \<Rightarrow> chainEntry \<Rightarrow> chainEntry \<Rightarrow> (fault + int \<times> chainEntry) option" where
  "searchHashInMemory_run table chainLen hashFunc hashLen targetHash r index seed =
     (case table_at table (unat index) of
        Inl f \<Rightarrow> Some (Inl f)
      | Inr c \<Rightarrow>
          (case regenerateChain (startpoint c) chainLen hashFunc hashLen targetHash seed of
             Inl f \<Rightarrow> Some (Inl f)
           | Inr (found, seed') \<Rightarrow>
               if found \<noteq> 0 then Some (Inr (1, seed'))
               else (case table_at table (unat (index + 1)) of
                       Inl f \<Rightarrow> Some (Inl f)
                     | Inr c' \<Rightarrow>
                         if endpoint c' = r
                         then searchHashInMemory_run table chainLen hashFunc hashLen targetHash
                                r (index + 1) seed'
                         else Some (Inr (0, seed')))))"

declare searchHashInMemory_run.simps [code]

text \<open>
  The outer loop \<^verbatim>\<open>for (j = chainLen - 1; j >= 0; j--)\<close> with \<^verbatim>\<open>int j\<close>.
  \<^verbatim>\<open>searchTable\<close> receives the \<^verbatim>\<open>unsigned int chainNum\<close> as an \<^verbatim>\<open>int\<close>.
\<close>

function searchHashInMemory_loop ::
  "chain list \<Rightarrow> 32 word \<Rightarrow> nat \<Rightarrow> (chainEntry \<Rightarrow> byte list) \<Rightarrow> nat \<Rightarrow> byte list
     \<Rightarrow> int \<Rightarrow> chainEntry \<Rightarrow> chainEntry \<Rightarrow> (fault + int \<times> chainEntry) option" where
  "searchHashInMemory_loop table chainNum chainLen hashFunc hashLen targetHash j index seed =
     (if j \<ge> 0
      then (case searchHashInMemory_walk chainLen hashFunc hashLen (nat j) targetHash of
              Inl f \<Rightarrow> Some (Inl f)
            | Inr (tmpHash, i) \<Rightarrow>
                (case reduce tmpHash hashLen (of_nat i) of
                   Inl f \<Rightarrow> Some (Inl f)
                 | Inr r \<Rightarrow>
                     (case searchTable table (sint chainNum) r index of
                        None \<Rightarrow> None
                      | Some (Inl f) \<Rightarrow> Some (Inl f)
                      | Some (Inr (hit, index')) \<Rightarrow>
                          if hit \<noteq> 0
                          then (case searchHashInMemory_run table chainLen hashFunc hashLen
                                       targetHash r index' seed of
                                  None \<Rightarrow> None
                                | Some (Inl f) \<Rightarrow> Some (Inl f)
                                | Some (Inr (found, seed')) \<Rightarrow>
                                    if found \<noteq> 0 then Some (Inr (1, seed'))
                                    else searchHashInMemory_loop table chainNum chainLen hashFunc
                                           hashLen targetHash (j - 1) index' seed')
                          else searchHashInMemory_loop table chainNum chainLen hashFunc hashLen
                                 targetHash (j - 1) index' seed)))
      else Some (Inr (0, seed)))"
  by pat_completeness auto
termination
  by (relation "measure (\<lambda>(table, chainNum, chainLen, hashFunc, hashLen, targetHash, j, index, seed).
        nat (j + 1))") auto

declare searchHashInMemory_loop.simps [simp del]

text \<open>
  \<^verbatim>\<open>searchHashInMemory\<close>. \<^verbatim>\<open>index\<close> is an uninitialised local of the source: its first
  value is a parameter here. It is read only after a successful \<^verbatim>\<open>searchTable\<close> has
  written it, so the increments the \<^verbatim>\<open>do\<close> loop leaves in it are not carried over. \<^verbatim>\<open>j = chainLen - 1\<close> is the source's value for
  \<open>chainLen < 2 ^ 31\<close>.
\<close>

definition searchHashInMemory ::
  "chain list \<Rightarrow> 32 word \<Rightarrow> nat \<Rightarrow> (chainEntry \<Rightarrow> byte list) \<Rightarrow> nat \<Rightarrow> byte list
     \<Rightarrow> chainEntry \<Rightarrow> chainEntry \<Rightarrow> (fault + int \<times> chainEntry) option" where
  "searchHashInMemory table chainNum chainLen hashFunc hashLen targetHash index seed =
     searchHashInMemory_loop table chainNum chainLen hashFunc hashLen targetHash
       (int chainLen - 1) index seed"

section \<open>Table names: \<^verbatim>\<open>generateTableName\<close> and \<^verbatim>\<open>parseTablename\<close>\<close>

text \<open>
  C strings are lists of characters without the terminating NUL. \<^verbatim>\<open>printf\<close>'s \<^verbatim>\<open>%u\<close>
  writes an \<^verbatim>\<open>unsigned int\<close> in decimal, most significant digit first, without leading
  zeros.
\<close>

definition digit_char :: "nat \<Rightarrow> char" where
  "digit_char d = ''0123456789'' ! d"

function print_u :: "nat \<Rightarrow> string" where
  "print_u n = (if n < 10 then [digit_char n] else print_u (n div 10) @ [digit_char (n mod 10)])"
  by pat_completeness auto
termination
  by (relation "measure (\<lambda>n. n)") auto

declare print_u.simps [simp del]

text \<open>
  \<^verbatim>\<open>snprintf(buffer, 512, "%s.%u.%u.%u.rt", hashName, chainNum, chainLen, index)\<close> keeps at
  most 511 characters; \<^verbatim>\<open>strdup\<close> returns a copy of them.
\<close>

definition generateTableName :: "string \<Rightarrow> 32 word \<Rightarrow> 32 word \<Rightarrow> 32 word \<Rightarrow> string" where
  "generateTableName hashName chainNum chainLen index =
     take 511 (hashName @ ''.'' @ print_u (unat chainNum) @ ''.'' @ print_u (unat chainLen)
               @ ''.'' @ print_u (unat index) @ ''.rt'')"

text \<open>
  The character classes of the C locale: \<^verbatim>\<open>isspace\<close> is true of space, \<^verbatim>\<open>\t\<close>,
  \<^verbatim>\<open>\n\<close>, \<^verbatim>\<open>\v\<close>, \<^verbatim>\<open>\f\<close> and \<^verbatim>\<open>\r\<close>; \<^verbatim>\<open>isdigit\<close> of the ten decimal digits.
\<close>

definition isspace :: "char \<Rightarrow> bool" where
  "isspace c \<longleftrightarrow> c \<in> set [CHR '' '', CHR 0x09, CHR 0x0A, CHR 0x0B, CHR 0x0C, CHR 0x0D]"

definition isdigit :: "char \<Rightarrow> bool" where
  "isdigit c \<longleftrightarrow> c \<in> set ''0123456789''"

definition digit_val :: "char \<Rightarrow> nat" where
  "digit_val c = of_char c - 48"

text \<open>
  The conversions of \<^verbatim>\<open>sscanf\<close>. Each returns the value it stores and the rest of the
  input, or \<open>None\<close> when it fails (and \<^verbatim>\<open>sscanf\<close> stops).
  \<^verbatim>\<open>%s\<close> skips white space and takes the longest run of characters that are not white
  space; it fails at the end of the input.
\<close>

definition scan_s :: "string \<Rightarrow> (string \<times> string) option" where
  "scan_s inp =
     (let s = dropWhile isspace inp
      in if s = [] then None
         else Some (takeWhile (\<lambda>c. \<not> isspace c) s, dropWhile (\<lambda>c. \<not> isspace c) s))"

text \<open>
  \<^verbatim>\<open>%u\<close> skips white space and converts as \<^verbatim>\<open>strtoul\<close> does in base 10: an optional
  sign, then the longest run of digits, which must not be empty. The value is stored
  into an \<^verbatim>\<open>unsigned int\<close>. A digit string beyond the range of a 64-bit
  \<^verbatim>\<open>unsigned long\<close> is converted to \<^verbatim>\<open>ULONG_MAX\<close>, as glibc does; a minus sign negates
  the \<^verbatim>\<open>unsigned long\<close>.
\<close>

definition strtoul_value :: "bool \<Rightarrow> nat \<Rightarrow> 32 word" where
  "strtoul_value neg n =
     of_nat (if n \<ge> 2 ^ 64 then 2 ^ 64 - 1 else if neg then (2 ^ 64 - n) mod 2 ^ 64 else n)"

definition scan_u :: "string \<Rightarrow> (32 word \<times> string) option" where
  "scan_u inp =
     (let s = dropWhile isspace inp;
          (neg, s1) = (case s of
                         [] \<Rightarrow> (False, s)
                       | c # cs \<Rightarrow>
                           if c = CHR ''-'' then (True, cs)
                           else if c = CHR ''+'' then (False, cs)
                           else (False, s));
          ds = takeWhile isdigit s1
      in if ds = [] then None
         else Some (strtoul_value neg (foldl (\<lambda>a c. 10 * a + digit_val c) 0 ds),
                    dropWhile isdigit s1))"

text \<open>
  The three locations \<^verbatim>\<open>parseTablename\<close> writes through its pointer arguments.
\<close>

record parse_out =
  out_hashFuncName :: string
  out_chainNum :: "32 word"
  out_chainLen :: "32 word"

text \<open>
  \<^verbatim>\<open>sscanf(tableBasename, "%s %u.%u.%u.rt", hashFuncName, chainNum, chainLen, &index)\<close>:
  each conversion that succeeds stores its value, the first directive that fails stops
  the scan. The third \<^verbatim>\<open>%u\<close> stores into the local \<^verbatim>\<open>index\<close> and the source drops the
  return value of \<^verbatim>\<open>sscanf\<close>, so nothing after the second \<^verbatim>\<open>%u\<close> can be observed: the
  model stops there.
\<close>

definition sscanf_tablename :: "string \<Rightarrow> parse_out \<Rightarrow> parse_out" where
  "sscanf_tablename inp out =
     (case scan_s inp of
        None \<Rightarrow> out
      | Some (name, rest1) \<Rightarrow>
          (let out1 = out\<lparr>out_hashFuncName := name\<rparr> in
           case scan_u (dropWhile isspace rest1) of
             None \<Rightarrow> out1
           | Some (cn, rest2) \<Rightarrow>
               (let out2 = out1\<lparr>out_chainNum := cn\<rparr> in
                case rest2 of
                  [] \<Rightarrow> out2
                | c # rest3 \<Rightarrow>
                    if c = CHR ''.''
                    then (case scan_u rest3 of
                            None \<Rightarrow> out2
                          | Some (cl, rest4) \<Rightarrow> out2\<lparr>out_chainLen := cl\<rparr>)
                    else out2)))"

text \<open>
  \<^verbatim>\<open>basename\<close> of \<^verbatim>\<open>libgen.h\<close>: trailing slashes are dropped and the last component is
  returned; the empty path gives \<^verbatim>\<open>"."\<close>, a path of slashes gives \<^verbatim>\<open>"/"\<close>.
\<close>

definition basename :: "string \<Rightarrow> string" where
  "basename path =
     (if path = [] then ''.''
      else (let p = rev (dropWhile (\<lambda>c. c = CHR ''/'') (rev path))
            in if p = [] then ''/''
               else rev (takeWhile (\<lambda>c. c \<noteq> CHR ''/'') (rev p))))"

text \<open>
  \<^verbatim>\<open>parseTablename\<close>: the first \<^verbatim>\<open>'.'\<close> of the base name (\<^verbatim>\<open>strchr\<close>) is overwritten
  with a space before the scan. The result is the return value and the content of the
  three output locations.
\<close>

definition parseTablename :: "string \<Rightarrow> parse_out \<Rightarrow> int \<times> parse_out" where
  "parseTablename tablename out =
     (let tableBasename = basename tablename
      in if CHR ''.'' \<notin> set tableBasename then (- 1, out)
         else (1, sscanf_tablename
                    (takeWhile (\<lambda>c. c \<noteq> CHR ''.'') tableBasename
                     @ CHR '' '' # tl (dropWhile (\<lambda>c. c \<noteq> CHR ''.'') tableBasename))
                    out))"

section \<open>Exhaustive search: \<^verbatim>\<open>seedRecoveryWorker\<close> and \<^verbatim>\<open>searchHashOnline\<close>\<close>

text \<open>
  The struct \<^verbatim>\<open>WorkerOptions\<close>. Its two pointers \<^verbatim>\<open>seed\<close> and \<^verbatim>\<open>found\<close> point to cells
  shared by all workers; the content of the two cells is the pair \<open>(found, seed)\<close> that the
  worker takes and returns.
\<close>

record WorkerOptions =
  opt_hash :: "byte list"
  opt_hashLen :: nat
  opt_start :: "32 word"
  opt_end :: "32 word"
  opt_hashFunc :: "chainEntry \<Rightarrow> byte list"

definition MAX_SEED :: "32 word" where
  "MAX_SEED = 0xffffffff"

text \<open>
  The loop \<^verbatim>\<open>for (i = opt->start; i <= opt->end; i++)\<close> of \<^verbatim>\<open>seedRecoveryWorker\<close>, run
  by a worker that is alone in writing the shared cells. \<^verbatim>\<open>i\<close> is an \<^verbatim>\<open>unsigned int\<close>:
  \<^verbatim>\<open>i++\<close> wraps around. \<open>None\<close> is the loop that never returns.
\<close>

partial_function (option) seedRecoveryWorker_loop ::
  "(chainEntry \<Rightarrow> byte list) \<Rightarrow> byte list \<Rightarrow> nat \<Rightarrow> 32 word \<Rightarrow> 32 word \<Rightarrow> bool \<times> chainEntry
     \<Rightarrow> (fault + bool \<times> chainEntry) option" where
  "seedRecoveryWorker_loop hashFunc hash hashLen end' i shared =
     (if i \<le> end'
      then (case memcmp_zero hash (hashFunc i) hashLen of
              Inl f \<Rightarrow> Some (Inl f)
            | Inr eq \<Rightarrow>
                (let shared' = (if eq then (True, i) else shared)
                 in if fst shared' then Some (Inr shared')
                    else seedRecoveryWorker_loop hashFunc hash hashLen end' (i + 1) shared'))
      else Some (Inr shared))"

declare seedRecoveryWorker_loop.simps [code]

definition seedRecoveryWorker ::
  "WorkerOptions \<Rightarrow> bool \<times> chainEntry \<Rightarrow> (fault + bool \<times> chainEntry) option" where
  "seedRecoveryWorker opt shared =
     seedRecoveryWorker_loop (opt_hashFunc opt) (opt_hash opt) (opt_hashLen opt) (opt_end opt)
       (opt_start opt) shared"

text \<open>
  The loop of \<^verbatim>\<open>searchHashOnline\<close> that fills \<^verbatim>\<open>opt[0 .. threads - 1]\<close>, with
  \<^verbatim>\<open>range = MAX_SEED / threads\<close> and \<^verbatim>\<open>end = MAX_SEED\<close>.
\<close>

function searchHashOnline_opts ::
  "32 word \<Rightarrow> 32 word \<Rightarrow> (chainEntry \<Rightarrow> byte list) \<Rightarrow> nat \<Rightarrow> byte list \<Rightarrow> 32 word \<Rightarrow> 32 word
     \<Rightarrow> WorkerOptions list" where
  "searchHashOnline_opts threads range' hashFunc hashLen targetHash i start =
     (if i < threads
      then \<lparr>opt_hash = targetHash, opt_hashLen = hashLen, opt_start = start,
            opt_end = (if i = threads - 1 then MAX_SEED else start + range'),
            opt_hashFunc = hashFunc\<rparr>
           # searchHashOnline_opts threads range' hashFunc hashLen targetHash (i + 1)
               (start + range')
      else [])"
  by pat_completeness auto
termination
proof (relation "measure (\<lambda>(threads, range', hashFunc, hashLen, targetHash, i, start).
                    unat threads - unat i)", goal_cases)
  case 1
  show ?case by simp
next
  case (2 threads range' hashFunc hashLen targetHash i start)
  then have lt: "unat i < unat threads"
    by (simp add: word_less_nat_alt)
  moreover have "unat threads < 2 ^ LENGTH(32)"
    by (rule unsigned_less)
  ultimately have "unat i + unat (1 :: 32 word) < 2 ^ LENGTH(32)"
    by simp
  then have "unat (i + 1) = unat i + unat (1 :: 32 word)"
    by (simp only: unat_add_lem)
  then show ?case
    using lt by simp
qed

declare searchHashOnline_opts.simps [simp del]

definition searchHashOnline_workers ::
  "32 word \<Rightarrow> (chainEntry \<Rightarrow> byte list) \<Rightarrow> nat \<Rightarrow> byte list \<Rightarrow> WorkerOptions list" where
  "searchHashOnline_workers threads hashFunc hashLen targetHash =
     searchHashOnline_opts threads (MAX_SEED div threads) hashFunc hashLen targetHash 0 0"

text \<open>
  The seeds the loop of a worker visits when the shared flag stays false: those from
  \<^verbatim>\<open>opt->start\<close> to \<^verbatim>\<open>opt->end\<close>, both included.
\<close>

definition worker_scans :: "WorkerOptions \<Rightarrow> 32 word \<Rightarrow> bool" where
  "worker_scans opt s \<longleftrightarrow> opt_start opt \<le> s \<and> s \<le> opt_end opt"

section \<open>Specification-side definitions\<close>

text \<open>
  The reduction as the specification words it: the XOR of the first \<open>len div 4\<close>
  little-endian words, plus the \<open>len mod 4\<close> trailing bytes read from position
  \<open>len - 1 - i\<close>, the whole XORed with the round. In \<open>reduce_spec\<close> a trailing byte counts
  as its unsigned value, in \<open>reduce_signed_spec\<close> as the value of a signed char.
\<close>

definition xor_fold_words :: "byte list \<Rightarrow> nat \<Rightarrow> chainEntry" where
  "xor_fold_words d len = foldl (XOR) 0 (map (load_word d) [0..<len div 4])"

definition reduce_spec :: "byte list \<Rightarrow> nat \<Rightarrow> chainEntry \<Rightarrow> chainEntry" where
  "reduce_spec d len round =
     (xor_fold_words d len + sum_list (map (\<lambda>i. ucast (d ! (len - 1 - i))) [0..<len mod 4]))
     XOR round"

definition reduce_signed_spec :: "byte list \<Rightarrow> nat \<Rightarrow> chainEntry \<Rightarrow> chainEntry" where
  "reduce_signed_spec d len round =
     (xor_fold_words d len + sum_list (map (\<lambda>i. scast (d ! (len - 1 - i))) [0..<len mod 4]))
     XOR round"



text \<open>
  The seeds of a chain as the specification defines them: \<open>s\<^sub>0 = start\<close> and
  \<open>s\<^bsub>j+1\<^esub> = reduce (H s\<^sub>j) hlen j\<close>.
\<close>

fun chain_seed :: "(chainEntry \<Rightarrow> byte list) \<Rightarrow> nat \<Rightarrow> chainEntry \<Rightarrow> nat \<Rightarrow> chainEntry" where
  "chain_seed H hlen start 0 = start"
| "chain_seed H hlen start (Suc j) =
     reduce_value (H (chain_seed H hlen start j)) hlen (of_nat j)"

section \<open>Concrete inputs\<close>

text \<open>
  The sorted table of the specification's scenario, a table whose two records share the
  endpoint 1, and two hash functions with digests of four bytes.
\<close>

definition scenario_table :: "chain list" where
  "scenario_table =
     [\<lparr>startpoint = 7, endpoint = 1\<rparr>, \<lparr>startpoint = 7, endpoint = 1\<rparr>,
      \<lparr>startpoint = 7, endpoint = 2\<rparr>, \<lparr>startpoint = 7, endpoint = 3\<rparr>]"



definition twin_table :: "chain list" where
  "twin_table = [\<lparr>startpoint = 5, endpoint = 1\<rparr>, \<lparr>startpoint = 6, endpoint = 1\<rparr>]"

definition toy_hash :: "chainEntry \<Rightarrow> byte list" where
  "toy_hash s = [ucast (s + 1), 0, 0, 0]"

definition zero_hash :: "chainEntry \<Rightarrow> byte list" where
  "zero_hash s = [0, 0, 0, 0]"

section \<open>The reduction function\<close>

lemma reduce_xor_loop_foldl:
  "reduce_xor_loop hash hashLen i r = foldl (XOR) r (map (load_word hash) [i..<hashLen div 4])"
proof (induction hash hashLen i r rule: reduce_xor_loop.induct)
  case (1 hash hashLen i reduced)
  show ?case
  proof (cases "i < hashLen div 4")
    case True
    then show ?thesis
      using "1.IH" by (subst reduce_xor_loop.simps) (simp add: upt_conv_Cons)
  next
    case False
    then show ?thesis by (subst reduce_xor_loop.simps) simp
  qed
qed

lemma reduce_add_loop_sum:
  "reduce_add_loop hash hashLen i r =
     r + sum_list (map (\<lambda>j. char_to_chainEntry (hash ! (hashLen - 1 - j))) [i..<hashLen mod 4])"
proof (induction hash hashLen i r rule: reduce_add_loop.induct)
  case (1 hash hashLen i reduced)
  show ?case
  proof (cases "i < hashLen mod 4")
    case True
    then show ?thesis
      using "1.IH" by (subst reduce_add_loop.simps) (simp add: upt_conv_Cons add.assoc)
  next
    case False
    then show ?thesis by (subst reduce_add_loop.simps) simp
  qed
qed

lemma reduce_value_closed_form:
  "reduce_value hash hashLen round = reduce_signed_spec hash hashLen round"
  by (simp add: reduce_value_def reduce_signed_spec_def xor_fold_words_def reduce_xor_loop_foldl
      reduce_add_loop_sum char_to_chainEntry_def)

lemma sint_byte: "sint (b :: byte) = (if b < 0x80 then uint b else uint b - 256)"
proof -
  have r: "0 \<le> uint b" "uint b < 256"
    using uint_lt2p [of b] by simp_all
  have "bit (uint b) 7 \<longleftrightarrow> 128 \<le> uint b"
  proof -
    have "uint b div 128 = 0 \<or> uint b div 128 = 1" using r by auto
    moreover have "bit (uint b) 7 \<longleftrightarrow> odd (uint b div 128)"
      by (simp add: bit_iff_odd)
    ultimately show ?thesis using r by auto
  qed
  moreover have "b < 0x80 \<longleftrightarrow> uint b < 128"
    by (simp add: word_less_def)
  moreover have "take_bit 8 (uint b) = uint b"
    using r by (simp add: take_bit_int_eq_self)
  ultimately show ?thesis
    by (simp add: sint_uint signed_take_bit_eq_take_bit_minus)
qed

lemma scast_byte:
  "(scast (b :: byte) :: chainEntry) = (if b < 0x80 then ucast b else ucast b - 256)"
proof -
  have "(scast b :: chainEntry) = word_of_int (sint b)" by (rule scast_eq)
  also have "\<dots> = (if b < 0x80 then word_of_int (uint b) else word_of_int (uint b) - 256)"
    by (simp only: sint_byte wi_hom_sub split: if_split) simp
  finally show ?thesis
    by (simp only: ucast_eq)
qed

text \<open>
  Claim C6, as amended. For every digest \<open>d\<close> of length \<open>len\<close> between 1 and 64 and every
  round, \<^verbatim>\<open>reduce\<close> returns the XOR of the first \<open>len div 4\<close> little-endian 32-bit words
  of \<open>d\<close>, plus each of the \<open>len mod 4\<close> trailing bytes read from position \<open>len - 1 - i\<close>
  and sign-extended from 8 to 32 bits, the whole XORed with the round.
\<close>

theorem reduce_is_signed_spec:
  assumes "length d = len" "1 \<le> len" "len \<le> 64"
  shows "reduce d len round = Inr (reduce_signed_spec d len round)"
  using assms by (simp add: reduce_def reduce_value_closed_form)

text \<open>
  The example of the specification: \<open>reduce [0x01, 0x02, 0x03, 0x04, 0x05] 5 0\<close> is
  \<open>0x04030206\<close>.
\<close>

theorem reduce_is_signed_spec_witness:
  "length [0x01, 0x02, 0x03, 0x04, 0x05 :: byte] = 5 \<and> (1 :: nat) \<le> 5 \<and> (5 :: nat) \<le> 64
   \<and> reduce [0x01, 0x02, 0x03, 0x04, 0x05] 5 0 = Inr 0x04030206"
  using reduce_is_signed_spec [of "[0x01, 0x02, 0x03, 0x04, 0x05]" 5 0]
  by (simp add: reduce_signed_spec_def xor_fold_words_def load_word_def upt_conv_Cons)

text \<open>
  Claim C6 as it is stated, with the trailing bytes added as unsigned values, fails for
  the digest \<open>[0, 0, 0, 0, 0x80]\<close>: the source returns \<open>0xFFFFFF80\<close>, the unsigned reading
  gives \<open>0x80\<close>.
\<close>

theorem reduce_unsigned_counterexample:
  "reduce [0, 0, 0, 0, 0x80] 5 0 = Inr 0xFFFFFF80
   \<and> reduce_spec [0, 0, 0, 0, 0x80] 5 0 = 0x80
   \<and> reduce [0, 0, 0, 0, 0x80] 5 0 \<noteq> Inr (reduce_spec [0, 0, 0, 0, 0x80] 5 0)"
  by (simp add: reduce_def reduce_value_closed_form reduce_signed_spec_def reduce_spec_def
      xor_fold_words_def load_word_def upt_conv_Cons)

text \<open>
  Claim C10. Each of the \<open>hashLen mod 4\<close> trailing bytes is added through a signed char:
  a byte \<open>b < 0x80\<close> adds its unsigned value, a byte \<open>b \<ge> 0x80\<close> adds \<open>b - 256\<close> modulo
  \<open>2 ^ 32\<close>. So for a digest whose trailing bytes are all below \<open>0x80\<close> the unsigned
  reading \<open>reduce_spec\<close> is what \<^verbatim>\<open>reduce\<close> returns.
\<close>

theorem reduce_trailing_bytes_signed:
  assumes "hashLen \<le> length hash"
  shows "reduce hash hashLen round =
           Inr ((xor_fold_words hash hashLen
                 + sum_list (map (\<lambda>i. let b = hash ! (hashLen - 1 - i)
                                      in if b < 0x80 then ucast b else ucast b - 256)
                              [0..<hashLen mod 4])) XOR round)
         \<and> ((\<forall>i < hashLen mod 4. hash ! (hashLen - 1 - i) < 0x80) \<longrightarrow>
              reduce hash hashLen round = Inr (reduce_spec hash hashLen round))"
proof -
  have val: "reduce hash hashLen round = Inr (reduce_signed_spec hash hashLen round)"
    using assms by (simp add: reduce_def reduce_value_closed_form)
  have low: "reduce_signed_spec hash hashLen round = reduce_spec hash hashLen round"
    if "\<forall>i < hashLen mod 4. hash ! (hashLen - 1 - i) < 0x80"
  proof -
    have "sum_list (map (\<lambda>i. scast (hash ! (hashLen - 1 - i)) :: chainEntry) [0..<hashLen mod 4]) =
          sum_list (map (\<lambda>i. ucast (hash ! (hashLen - 1 - i))) [0..<hashLen mod 4])"
      using that by (intro arg_cong [where f = sum_list] map_cong refl) (simp add: scast_byte)
    then show ?thesis
      unfolding reduce_signed_spec_def reduce_spec_def by (rule arg_cong2 [where f = "\<lambda>a b. (xor_fold_words hash hashLen + a) XOR b", OF _ refl])
  qed
  have "reduce hash hashLen round =
           Inr ((xor_fold_words hash hashLen
                 + sum_list (map (\<lambda>i. let b = hash ! (hashLen - 1 - i)
                                      in if b < 0x80 then ucast b else ucast b - 256)
                              [0..<hashLen mod 4])) XOR round)"
    using val by (simp add: reduce_signed_spec_def scast_byte Let_def)
  with val low show ?thesis
    by simp
qed

theorem reduce_trailing_bytes_signed_witness:
  "(5 :: nat) \<le> length [0x01, 0x02, 0x03, 0x04, 0x85 :: byte]
   \<and> reduce [0x01, 0x02, 0x03, 0x04, 0x85] 5 0 = Inr (0x04030201 + 0x85 - 256)
   \<and> reduce [0x01, 0x02, 0x03, 0x04, 0x85] 5 0 = Inr 0x04030186"
  using reduce_trailing_bytes_signed [of 5 "[0x01, 0x02, 0x03, 0x04, 0x85]" 0]
  by (simp add: xor_fold_words_def load_word_def upt_conv_Cons)

section \<open>Sorting\<close>





















section \<open>Lookup\<close>

text \<open>
  Claim C1 fails on the source, at the sorted table of the specification's scenario, whose
  endpoints are 1, 1, 2, 3. The endpoint 3 occurs in the table and \<^verbatim>\<open>searchTable\<close> returns 0
  (the loop ends when \<^verbatim>\<open>beg\<close> meets \<^verbatim>\<open>end\<close> without looking at that record). For the
  endpoint 2 it returns 1 with \<^verbatim>\<open>*index = 1\<close>, a record whose endpoint is 1; the lowest
  position whose endpoint is 2 is position 2.
\<close>

theorem searchTable_scenario:
  "sorted (map endpoint scenario_table)
   \<and> searchTable scenario_table 4 3 99 = Some (Inr (0, 99))
   \<and> endpoint (scenario_table ! 3) = 3
   \<and> searchTable scenario_table 4 2 99 = Some (Inr (1, 1))
   \<and> endpoint (scenario_table ! 1) = 1
   \<and> endpoint (scenario_table ! 2) = 2"
  by (simp add: scenario_table_def searchTable_def searchTable_loop.simps table_at_def
      searchTable_walk_back.simps)

lemma regenerateChain_loop_spec:
  assumes "\<forall>s. length (H s) = hlen" "length target = hlen"
    and "tmp = chain_seed H hlen start i"
  shows "regenerateChain_loop L H hlen target i tmp seed0 =
     (if \<exists>k. i \<le> k \<and> k < L \<and> H (chain_seed H hlen start k) = target
      then Inr (1, chain_seed H hlen start (LEAST k. i \<le> k \<and> H (chain_seed H hlen start k) = target))
      else Inr (0, seed0))"
  using assms
proof (induction L H hlen target i tmp seed0 rule: regenerateChain_loop.induct)
  case (1 chainLen hashFunc hashLen targetHash i tmp seed)
  let ?s = "chain_seed hashFunc hashLen start"
  let ?hit = "\<lambda>k. hashFunc (?s k) = targetHash"
  have cmp: "memcmp_zero (hashFunc tmp) targetHash hashLen = Inr (?hit i)"
    using "1.prems" by (simp add: memcmp_zero_def)
  show ?case
  proof (cases "i < chainLen")
    case False
    then show ?thesis
      by (subst regenerateChain_loop.simps) auto
  next
    case True
    show ?thesis
    proof (cases "?hit i")
      case hit: True
      have "(LEAST k. i \<le> k \<and> ?hit k) = i"
        using hit by (intro Least_equality) auto
      moreover have "\<exists>k. i \<le> k \<and> k < chainLen \<and> ?hit k"
        using hit True by blast
      ultimately show ?thesis
        using True cmp hit "1.prems"(3) by (subst regenerateChain_loop.simps) simp
    next
      case miss: False
      have red: "reduce (hashFunc tmp) hashLen (of_nat i) = Inr (?s (i + 1))"
        using "1.prems" by (simp add: reduce_def)
      have same: "(i \<le> k \<and> ?hit k) \<longleftrightarrow> (i + 1 \<le> k \<and> ?hit k)" for k
        using miss by (cases "k = i") auto
      have IH: "regenerateChain_loop chainLen hashFunc hashLen targetHash (i + 1) (?s (i + 1)) seed =
         (if \<exists>k. i + 1 \<le> k \<and> k < chainLen \<and> ?hit k
          then Inr (1, ?s (LEAST k. i + 1 \<le> k \<and> ?hit k))
          else Inr (0, seed))"
        using "1.IH" [OF True cmp _ red] miss "1.prems" by simp
      have "regenerateChain_loop chainLen hashFunc hashLen targetHash i tmp seed =
            regenerateChain_loop chainLen hashFunc hashLen targetHash (i + 1) (?s (i + 1)) seed"
        using True cmp miss red by (subst regenerateChain_loop.simps) simp
      also note IH
      finally show ?thesis
        using same by (simp only: conj_assoc [symmetric]) metis
    qed
  qed
qed


text \<open>
  Claim C7. With a hash function that writes \<open>hlen\<close> bytes, a target of \<open>hlen\<close> bytes and a
  chain length below \<open>2 ^ 31\<close>: some step \<open>k < L\<close> has \<open>H s\<^sub>k = target\<close> if and only if
  \<^verbatim>\<open>regenerateChain\<close> returns 1 with \<^verbatim>\<open>*seed = s\<^sub>k\<close> for such a step, which is then the
  first one (the comparison comes before the reduction); if no step matches it returns 0
  and leaves \<^verbatim>\<open>*seed\<close> as it was.
\<close>

theorem regenerateChain_first_match:
  assumes "\<forall>s. length (H s) = hlen" "length target = hlen" "L < 2 ^ 31"
  shows "((\<exists>k<L. H (chain_seed H hlen start k) = target) \<longleftrightarrow>
          (\<exists>k<L. regenerateChain start L H hlen target seed0 = Inr (1, chain_seed H hlen start k)
                 \<and> H (chain_seed H hlen start k) = target
                 \<and> (\<forall>j<k. H (chain_seed H hlen start j) \<noteq> target)))
       \<and> ((\<nexists>k. k < L \<and> H (chain_seed H hlen start k) = target) \<longrightarrow>
            regenerateChain start L H hlen target seed0 = Inr (0, seed0))"
proof -
  let ?hit = "\<lambda>k. H (chain_seed H hlen start k) = target"
  have eq: "regenerateChain start L H hlen target seed0 =
     (if \<exists>k<L. ?hit k then Inr (1, chain_seed H hlen start (LEAST k. ?hit k)) else Inr (0, seed0))"
    unfolding regenerateChain_def
    using regenerateChain_loop_spec [OF assms(1,2), of start start 0 L seed0] by simp
  have "\<exists>k<L. regenerateChain start L H hlen target seed0 = Inr (1, chain_seed H hlen start k)
                 \<and> ?hit k \<and> (\<forall>j<k. \<not> ?hit j)"
    if "\<exists>k<L. ?hit k"
  proof -
    from that obtain k where k: "k < L" "?hit k" by blast
    let ?m = "LEAST k. ?hit k"
    have "?hit ?m" using k(2) by (rule LeastI)
    moreover have "?m \<le> k" using k(2) by (rule Least_le)
    moreover have "\<forall>j<?m. \<not> ?hit j" using not_less_Least by blast
    ultimately show ?thesis
      using eq that k(1) by (intro exI [of _ ?m]) simp
  qed
  then show ?thesis
    using eq by auto
qed

theorem regenerateChain_first_match_witness:
  "(\<exists>k<3. toy_hash (chain_seed toy_hash 4 5 k) = [7, 0, 0, 0])
   \<and> regenerateChain 5 3 toy_hash 4 [7, 0, 0, 0] 99 = Inr (1, 6)"
proof -
  have s1: "chain_seed toy_hash 4 5 (Suc 0) = 6"
    by (simp add: toy_hash_def reduce_value_def reduce_xor_loop.simps reduce_add_loop.simps
        load_word_def)
  have s2: "chain_seed toy_hash 4 5 (Suc (Suc 0)) = 6"
    using s1
    by (simp add: toy_hash_def reduce_value_def reduce_xor_loop.simps reduce_add_loop.simps
        load_word_def)
  have hit: "\<exists>k<3. toy_hash (chain_seed toy_hash 4 5 k) = [7, 0, 0, 0]"
    using s1 by (intro exI [of _ "Suc 0"]) (simp add: toy_hash_def)
  have "\<forall>s. length (toy_hash s) = 4" "length [7, 0, 0, 0 :: byte] = 4" "(3 :: nat) < 2 ^ 31"
    by (simp_all add: toy_hash_def)
  from regenerateChain_first_match [OF this, of 5 99] hit
  obtain k where k: "k < 3"
    "regenerateChain 5 3 toy_hash 4 [7, 0, 0, 0] 99 = Inr (1, chain_seed toy_hash 4 5 k)"
    "toy_hash (chain_seed toy_hash 4 5 k) = [7, 0, 0, 0]"
    by blast
  from k(1) consider "k = 0" | "k = Suc 0" | "k = Suc (Suc 0)" by linarith
  then have "chain_seed toy_hash 4 5 k = 6"
  proof cases
    case 1
    with k(3) show ?thesis by (simp add: toy_hash_def)
  next
    case 2
    with s1 show ?thesis by simp
  next
    case 3
    with s2 show ?thesis by simp
  qed
  with k(2) have r: "regenerateChain 5 3 toy_hash 4 [7, 0, 0, 0] 99 = Inr (1, 6)"
    by simp
  from hit r show ?thesis
    by (rule conjI)
qed


text \<open>
  Claim C9 fails on the source. With a chain length of 1, the target digest
  \<open>[1, 0, 0, 0]\<close> reduces to 1, the endpoint of both records of \<open>twin_table\<close>. No chain
  regenerates the target, and after the second record the \<^verbatim>\<open>do\<close> loop of
  \<^verbatim>\<open>searchHashInMemory\<close> reads \<^verbatim>\<open>table[2]\<close>, past the two records of the table.
\<close>

theorem searchHashInMemory_reads_past_table:
  "length twin_table = 2
   \<and> searchHashInMemory twin_table 2 1 zero_hash 4 [1, 0, 0, 0] 99 77
       = Some (Inl (BadTableRead 2))"
  by (simp add: twin_table_def zero_hash_def searchHashInMemory_def
      searchHashInMemory_loop.simps searchHashInMemory_walk.simps
      searchHashInMemory_run.simps regenerateChain_def regenerateChain_loop.simps
      memcmp_zero_def reduce_def reduce_value_closed_form reduce_signed_spec_def
      xor_fold_words_def load_word_def searchTable_def searchTable_loop.simps table_at_def
      searchTable_walk_back.simps)

section \<open>Table names\<close>

text \<open>
  Claim C4 fails on the source. \<^verbatim>\<open>parseTablename\<close> returns \<open>- 1\<close> only when the base name
  has no \<^verbatim>\<open>'.'\<close>. For \<^verbatim>\<open>"bad.rt"\<close> it returns 1: the scan stores \<^verbatim>\<open>"bad"\<close> as the name
  of the hash function, fails at the first \<^verbatim>\<open>%u\<close>, and its result is not looked at; the
  two numbers are left as they were.
\<close>

theorem parseTablename_bad_rt:
  "parseTablename ''bad.rt'' out = (1, out\<lparr>out_hashFuncName := ''bad''\<rparr>)"
  by (simp add: parseTablename_def basename_def sscanf_tablename_def scan_s_def scan_u_def
      isspace_def isdigit_def)

lemma digit_char_cases:
  assumes "d < 10"
  shows "isdigit (digit_char d)" and "digit_val (digit_char d) = d"
proof -
  from assms have d: "d = 0 \<or> d = 1 \<or> d = 2 \<or> d = 3 \<or> d = 4 \<or> d = 5 \<or> d = 6 \<or> d = 7
      \<or> d = 8 \<or> d = 9"
    by presburger
  then show "isdigit (digit_char d)"
    by (elim disjE) (simp_all add: digit_char_def isdigit_def)
  from d show "digit_val (digit_char d) = d"
    by (elim disjE) (simp_all add: digit_char_def digit_val_def)
qed

lemma isdigit_plain:
  assumes "isdigit c"
  shows "\<not> isspace c" "c \<noteq> CHR ''.''" "c \<noteq> CHR ''/''" "c \<noteq> CHR ''+''" "c \<noteq> CHR ''-''"
  using assms by (auto simp: isdigit_def isspace_def)

lemma print_u_digits: "c \<in> set (print_u n) \<Longrightarrow> isdigit c"
proof (induction n arbitrary: c rule: print_u.induct)
  case (1 n)
  show ?case
  proof (cases "n < 10")
    case True
    with "1.prems" show ?thesis
      by (subst (asm) print_u.simps) (simp add: digit_char_cases)
  next
    case False
    with "1.prems" "1.IH" show ?thesis
      by (subst (asm) print_u.simps) (auto simp: digit_char_cases)
  qed
qed

lemma print_u_nonempty: "print_u n \<noteq> []"
  by (subst print_u.simps) simp

lemma print_u_value: "foldl (\<lambda>a c. 10 * a + digit_val c) 0 (print_u n) = n"
proof (induction n rule: print_u.induct)
  case (1 n)
  show ?case
  proof (cases "n < 10")
    case True
    then show ?thesis
      by (subst print_u.simps) (simp add: digit_char_cases)
  next
    case False
    then show ?thesis
      using "1.IH" by (subst print_u.simps) (simp add: digit_char_cases)
  qed
qed

lemma takeWhile_stop: "ys = [] \<or> \<not> P (hd ys) \<Longrightarrow> takeWhile P ys = []"
  by (cases ys) auto

lemma dropWhile_stop: "ys = [] \<or> \<not> P (hd ys) \<Longrightarrow> dropWhile P ys = ys"
  by (cases ys) auto

lemma skip_print_u: "dropWhile isspace (print_u n @ rest) = print_u n @ rest"
proof -
  obtain c cs where cs: "print_u n = c # cs"
    using print_u_nonempty [of n] by (cases "print_u n") auto
  then have "isdigit c"
    using print_u_digits [of c n] by simp
  then show ?thesis
    using cs isdigit_plain(1) by simp
qed

lemma scan_u_print_u:
  assumes "n < 2 ^ 64" "rest = [] \<or> \<not> isdigit (hd rest)"
  shows "scan_u (print_u n @ rest) = Some (of_nat n, rest)"
proof -
  obtain c cs where cs: "print_u n = c # cs"
    using print_u_nonempty [of n] by (cases "print_u n") auto
  then have c: "isdigit c"
    using print_u_digits [of c n] by simp
  have sp: "dropWhile isspace (print_u n @ rest) = print_u n @ rest"
    using cs isdigit_plain(1) [OF c] by simp
  have tk: "takeWhile isdigit (print_u n @ rest) = print_u n"
    using takeWhile_stop [of rest isdigit] assms(2) print_u_digits
    by (simp add: takeWhile_append2)
  have dr: "dropWhile isdigit (print_u n @ rest) = rest"
    using dropWhile_stop [of rest isdigit] assms(2) print_u_digits
    by (simp add: dropWhile_append2)
  have val: "strtoul_value False n = of_nat n"
    using assms(1) by (simp add: strtoul_value_def)
  have sign: "(case print_u n @ rest of
                 [] \<Rightarrow> (False, print_u n @ rest)
               | c # cs \<Rightarrow>
                   if c = CHR ''-'' then (True, cs)
                   else if c = CHR ''+'' then (False, cs)
                   else (False, print_u n @ rest)) = (False, print_u n @ rest)"
    using cs isdigit_plain(4,5) [OF c] by simp
  show ?thesis
    unfolding scan_u_def sp Let_def sign
    by (simp add: tk dr val print_u_value print_u_nonempty)
qed

lemma scan_s_name:
  assumes "name \<noteq> []" "\<forall>c \<in> set name. \<not> isspace c"
  shows "scan_s (name @ CHR '' '' # rest) = Some (name, CHR '' '' # rest)"
proof -
  have sp: "isspace CHR '' ''"
    by (simp add: isspace_def)
  have "dropWhile isspace (name @ CHR '' '' # rest) = name @ CHR '' '' # rest"
    using assms by (cases name) auto
  moreover have "takeWhile (\<lambda>c. \<not> isspace c) (name @ CHR '' '' # rest) = name"
    using assms sp by (simp add: takeWhile_append2)
  moreover have "dropWhile (\<lambda>c. \<not> isspace c) (name @ CHR '' '' # rest) = CHR '' '' # rest"
    using assms sp by (simp add: dropWhile_append2)
  ultimately show ?thesis
    using assms(1) by (simp add: scan_s_def Let_def)
qed

lemma basename_plain:
  assumes "p \<noteq> []" "CHR ''/'' \<notin> set p"
  shows "basename p = p"
proof -
  have dr: "dropWhile (\<lambda>c. c = CHR ''/'') (rev p) = rev p"
    using assms by (cases "rev p") auto
  have tk: "takeWhile (\<lambda>c. c \<noteq> CHR ''/'') (rev p) = rev p"
    using assms by (intro takeWhile_eq_all_conv [THEN iffD2]) auto
  show ?thesis
    using assms(1) by (simp add: basename_def Let_def dr tk)
qed

lemma parse_scanned:
  assumes name: "name \<noteq> []" "\<forall>c \<in> set name. \<not> isspace c"
  shows "sscanf_tablename
           (name @ CHR '' '' # print_u (unat cn) @ CHR ''.'' # print_u (unat cl) @ CHR ''.'' # rest) out
         = out\<lparr>out_hashFuncName := name, out_chainNum := cn, out_chainLen := cl\<rparr>"
proof -
  have big: "unat w < 2 ^ 64" for w :: "32 word"
    using unsigned_less [of w, where 'a = nat] by simp
  have dot: "\<not> isdigit CHR ''.''" "isspace CHR '' ''"
    by (simp_all add: isdigit_def isspace_def)
  have s1: "scan_u (print_u (unat cn) @ CHR ''.'' # print_u (unat cl) @ CHR ''.'' # rest)
          = Some (cn, CHR ''.'' # print_u (unat cl) @ CHR ''.'' # rest)"
    using scan_u_print_u [of "unat cn" "CHR ''.'' # print_u (unat cl) @ CHR ''.'' # rest"] big dot
    by simp
  have s2: "scan_u (print_u (unat cl) @ CHR ''.'' # rest) = Some (cl, CHR ''.'' # rest)"
    using scan_u_print_u [of "unat cl" "CHR ''.'' # rest"] big dot by simp
  show ?thesis
    unfolding sscanf_tablename_def scan_s_name [OF name]
    by (simp add: dot skip_print_u s1 s2)
qed


lemma print_u_no_slash: "CHR ''/'' \<notin> set (print_u n)"
  using isdigit_plain(3) print_u_digits by blast

lemma generateTableName_fits:
  assumes "length (hashName @ ''.'' @ print_u (unat chainNum) @ ''.'' @ print_u (unat chainLen)
                 @ ''.'' @ print_u (unat index) @ ''.rt'') < 512"
  shows "generateTableName hashName chainNum chainLen index = hashName @ CHR ''.'' # print_u (unat chainNum) @ CHR ''.'' # print_u (unat chainLen) @ CHR ''.''
                 # print_u (unat index) @ ''.rt''"
    using assms by (simp add: generateTableName_def)


lemma basename_generated:
  assumes "\<forall>c \<in> set hashName. c \<noteq> CHR ''.'' \<and> c \<noteq> CHR ''/'' \<and> \<not> isspace c"
  shows "basename (hashName @ CHR ''.'' # print_u a @ CHR ''.'' # print_u b @ CHR ''.'' # print_u c @ ''.rt'')
     = hashName @ CHR ''.'' # print_u a @ CHR ''.'' # print_u b @ CHR ''.'' # print_u c @ ''.rt''"
proof (rule basename_plain)
  show "hashName @ CHR ''.'' # print_u a @ CHR ''.'' # print_u b @ CHR ''.'' # print_u c @ ''.rt'' \<noteq> []"
    by simp
  show "CHR ''/'' \<notin> set (hashName @ CHR ''.'' # print_u a @ CHR ''.'' # print_u b @ CHR ''.'' # print_u c @ ''.rt'')"
    using assms by (auto simp add: print_u_no_slash)
qed


lemma split_at_first_dot:
  assumes "\<forall>c \<in> set hashName. c \<noteq> CHR ''.'' \<and> c \<noteq> CHR ''/'' \<and> \<not> isspace c"
  shows "takeWhile (\<lambda>c. c \<noteq> CHR ''.'') (hashName @ CHR ''.'' # rest) = hashName"
    and "dropWhile (\<lambda>c. c \<noteq> CHR ''.'') (hashName @ CHR ''.'' # rest) = CHR ''.'' # rest"
    and "CHR ''.'' \<in> set (hashName @ CHR ''.'' # rest)"
  using assms by (simp_all add: takeWhile_append2 dropWhile_append2)


text \<open>
  Claim C8, as amended. For every hash name that is not empty and contains no \<^verbatim>\<open>'.'\<close>, no
  \<^verbatim>\<open>'/'\<close> and no white space, and all 32-bit parameters such that the generated name
  fits the 512-byte buffer of \<^verbatim>\<open>generateTableName\<close>, decoding the generated name
  succeeds and yields exactly the name, the chain number and the chain length.
\<close>

theorem parseTablename_generateTableName:
  assumes "hashName \<noteq> []"
    and "\<forall>c \<in> set hashName. c \<noteq> CHR ''.'' \<and> c \<noteq> CHR ''/'' \<and> \<not> isspace c"
    and "length (hashName @ ''.'' @ print_u (unat chainNum) @ ''.'' @ print_u (unat chainLen)
                 @ ''.'' @ print_u (unat index) @ ''.rt'') < 512"
  shows "parseTablename (generateTableName hashName chainNum chainLen index) out
         = (1, out\<lparr>out_hashFuncName := hashName, out_chainNum := chainNum,
                    out_chainLen := chainLen\<rparr>)"
proof -
  let ?rest = "print_u (unat index) @ ''.rt''"
  let ?tail = "print_u (unat chainNum) @ CHR ''.'' # print_u (unat chainLen) @ CHR ''.'' # ?rest"
  have space: "\<forall>c \<in> set hashName. \<not> isspace c"
    using assms(2) by simp
  have "parseTablename (hashName @ CHR ''.'' # ?tail) out
          = (1, sscanf_tablename (hashName @ CHR '' '' # ?tail) out)"
    unfolding parseTablename_def basename_generated [OF assms(2)] Let_def split_at_first_dot [OF assms(2)]
    by simp
  also have "sscanf_tablename (hashName @ CHR '' '' # ?tail) out
          = out\<lparr>out_hashFuncName := hashName, out_chainNum := chainNum, out_chainLen := chainLen\<rparr>"
    by (rule parse_scanned [OF assms(1) space])
  finally show ?thesis
    unfolding generateTableName_fits [OF assms(3)] .
qed


lemma print_u_examples: "print_u 1000 = ''1000''" "print_u 100 = ''100''" "print_u 0 = ''0''"
    by (simp_all add: print_u.simps digit_char_def)

lemma generateTableName_wikihash: "generateTableName ''wikihash'' 1000 100 0 = ''wikihash.1000.100.0.rt''"
  by (simp add: generateTableName_def print_u_examples)


lemma generateTableName_a_b: "generateTableName ''a b'' 1000 100 0 = ''a b.1000.100.0.rt''"
  by (simp add: generateTableName_def print_u_examples)

theorem parseTablename_generateTableName_witness:
  "''wikihash'' \<noteq> []
   \<and> generateTableName ''wikihash'' 1000 100 0 = ''wikihash.1000.100.0.rt''
   \<and> parseTablename ''wikihash.1000.100.0.rt''
       \<lparr>out_hashFuncName = ''?'', out_chainNum = 11, out_chainLen = 22\<rparr>
     = (1, \<lparr>out_hashFuncName = ''wikihash'', out_chainNum = 1000, out_chainLen = 100\<rparr>)"
proof -
  have "''wikihash'' \<noteq> []"
    and "\<forall>c \<in> set ''wikihash''. c \<noteq> CHR ''.'' \<and> c \<noteq> CHR ''/'' \<and> \<not> isspace c"
    and "length (''wikihash'' @ ''.'' @ print_u (unat (1000 :: 32 word)) @ ''.''
                 @ print_u (unat (100 :: 32 word)) @ ''.'' @ print_u (unat (0 :: 32 word))
                 @ ''.rt'') < 512"
    by (simp_all add: isspace_def print_u_examples)
  from parseTablename_generateTableName
         [OF this, of "\<lparr>out_hashFuncName = ''?'', out_chainNum = 11, out_chainLen = 22\<rparr>"]
  show ?thesis
    by (simp add: generateTableName_wikihash)
qed

text \<open>
  Claim C8 as it is stated, for every hash name without \<^verbatim>\<open>'.'\<close>, fails for the name
  \<^verbatim>\<open>"a b"\<close>: \<^verbatim>\<open>%s\<close> stops at the space, the decoded name is \<^verbatim>\<open>"a"\<close>, the first \<^verbatim>\<open>%u\<close>
  fails at \<^verbatim>\<open>"b"\<close> and the two numbers are left as they were.
\<close>

theorem parseTablename_generateTableName_counterexample:
  "CHR ''.'' \<notin> set ''a b''
   \<and> parseTablename (generateTableName ''a b'' 1000 100 0)
       \<lparr>out_hashFuncName = ''?'', out_chainNum = 11, out_chainLen = 22\<rparr>
     = (1, \<lparr>out_hashFuncName = ''a'', out_chainNum = 11, out_chainLen = 22\<rparr>)
   \<and> parseTablename (generateTableName ''a b'' 1000 100 0)
       \<lparr>out_hashFuncName = ''?'', out_chainNum = 11, out_chainLen = 22\<rparr>
     \<noteq> (1, \<lparr>out_hashFuncName = ''a b'', out_chainNum = 1000, out_chainLen = 100\<rparr>)"
  unfolding generateTableName_a_b
  by (simp add: parseTablename_def basename_def sscanf_tablename_def scan_s_def scan_u_def
      isspace_def isdigit_def)


section \<open>Exhaustive search\<close>

text \<open>
  The ranges leave no gap: for every number of workers other than 0, every 32-bit seed
  is scanned by some worker.
\<close>

lemma searchHashOnline_opts_cover:
  assumes "i < threads"
    and "unat start + (unat threads - unat i) * unat range' < 2 ^ 32"
    and "start \<le> s"
  shows "\<exists>opt \<in> set (searchHashOnline_opts threads range' hashFunc hashLen targetHash i start).
           worker_scans opt s"
  using assms
proof (induction threads range' hashFunc hashLen targetHash i start
    rule: searchHashOnline_opts.induct)
  case (1 threads range' hashFunc hashLen targetHash i start)
  let ?opt = "\<lparr>opt_hash = targetHash, opt_hashLen = hashLen, opt_start = start,
            opt_end = (if i = threads - 1 then MAX_SEED else start + range'),
            opt_hashFunc = hashFunc\<rparr>"
  have unfold: "searchHashOnline_opts threads range' hashFunc hashLen targetHash i start =
      ?opt # searchHashOnline_opts threads range' hashFunc hashLen targetHash (i + 1) (start + range')"
    using "1.prems"(1) by (subst searchHashOnline_opts.simps) simp
  have smax: "s \<le> MAX_SEED"
  proof -
    have "uint s < 2 ^ LENGTH(32)" by (rule uint_lt2p)
    then show ?thesis by (simp add: MAX_SEED_def word_le_def)
  qed
  show ?case
  proof (cases "i = threads - 1 \<or> s \<le> start + range'")
    case True
    then have "worker_scans ?opt s"
      using "1.prems"(3) smax by (auto simp: worker_scans_def)
    then show ?thesis
      unfolding unfold by simp
  next
    case False
    have lt: "unat i < unat threads"
      using "1.prems"(1) by (simp add: word_less_nat_alt)
    then have "unat i + unat (1 :: 32 word) < 2 ^ LENGTH(32)"
      using unsigned_less [of threads, where 'a = nat] by simp
    then have i1: "unat (i + 1) = unat i + 1"
      by (simp add: unat_add_lem [THEN iffD1])
    have "unat (threads - 1) = unat threads - 1"
      using lt by (simp add: unat_sub word_le_nat_alt)
    with False have "unat i \<noteq> unat threads - 1"
      by (metis word_unat_eq_iff)
    with lt have lt1: "unat i + 1 < unat threads" by simp
    then have next_lt: "i + 1 < threads"
      using i1 by (simp add: word_less_nat_alt)
    define K where "K = (unat threads - unat i) * unat range'"
    have "1 * unat range' \<le> K"
      unfolding K_def using lt by (intro mult_le_mono1) simp
    moreover have "unat start + K < 2 ^ 32"
      unfolding K_def by (rule "1.prems"(2))
    ultimately have "unat start + unat range' < 2 ^ LENGTH(32)"
      by simp
    then have s1: "unat (start + range') = unat start + unat range'"
      by (simp add: unat_add_lem [THEN iffD1])
    have "(unat threads - unat i) * unat range' = unat range' + (unat threads - unat (i + 1)) * unat range'"
      using lt i1 by (metis Suc_diff_Suc Suc_eq_plus1 diff_Suc_1 mult_Suc plus_1_eq_Suc)
    then have bound: "unat (start + range') + (unat threads - unat (i + 1)) * unat range' < 2 ^ 32"
      using "1.prems"(2) s1 by simp
    have "start + range' \<le> s"
      using False by (simp add: not_le less_imp_le)
    from "1.IH" [OF "1.prems"(1) next_lt bound this] show ?thesis
      unfolding unfold by simp
  qed
qed

lemma searchHashOnline_workers_cover:
  assumes "threads \<noteq> 0"
  shows "\<exists>opt \<in> set (searchHashOnline_workers threads hashFunc hashLen targetHash).
           worker_scans opt s"
proof -
  have "0 < threads"
    using assms by (simp add: word_greater_zero_iff)
  moreover have "unat (MAX_SEED div threads) = unat MAX_SEED div unat threads"
    by (rule unat_div)
  then have "unat threads * unat (MAX_SEED div threads) \<le> unat MAX_SEED"
    by simp
  then have "unat (0 :: 32 word) + (unat threads - unat (0 :: 32 word)) * unat (MAX_SEED div threads) < 2 ^ 32"
    by (simp add: MAX_SEED_def mult.commute)
  ultimately show ?thesis
    unfolding searchHashOnline_workers_def
    by (rule searchHashOnline_opts_cover) simp
qed

text \<open>
  Claim C2 fails on the source. With two workers the ranges are \<open>[0, 0x7FFFFFFF]\<close> and
  \<open>[0x7FFFFFFF, 0xFFFFFFFF]\<close>: the end of a range is the start of the next one and both
  are scanned, so the seed \<open>0x7FFFFFFF\<close> belongs to both ranges.
\<close>

theorem searchHashOnline_ranges_overlap:
  "map (\<lambda>opt. (opt_start opt, opt_end opt)) (searchHashOnline_workers 2 zero_hash 4 [1, 0, 0, 0])
     = [(0, 0x7FFFFFFF), (0x7FFFFFFF, 0xFFFFFFFF)]
   \<and> worker_scans (searchHashOnline_workers 2 zero_hash 4 [1, 0, 0, 0] ! 0) 0x7FFFFFFF
   \<and> worker_scans (searchHashOnline_workers 2 zero_hash 4 [1, 0, 0, 0] ! 1) 0x7FFFFFFF"
  by (simp add: searchHashOnline_workers_def searchHashOnline_opts.simps MAX_SEED_def
      worker_scans_def)

lemma seedRecoveryWorker_loop_no_result:
  assumes "seedRecoveryWorker_loop hashFunc hash hashLen end' i shared = Some y"
  shows "\<not> (end' = MAX_SEED \<and> (\<forall>s. memcmp_zero hash (hashFunc s) hashLen = Inr False)
            \<and> \<not> fst shared)"
proof (rule seedRecoveryWorker_loop.raw_induct
    [where P = "\<lambda>hashFunc hash hashLen end' i shared y.
       \<not> (end' = MAX_SEED \<and> (\<forall>s. memcmp_zero hash (hashFunc s) hashLen = Inr False)
          \<and> \<not> fst shared)", OF _ assms], goal_cases)
  case (1 loop hashFunc hash hashLen end' i shared y)
  show ?case
  proof
    assume a: "end' = MAX_SEED \<and> (\<forall>s. memcmp_zero hash (hashFunc s) hashLen = Inr False)
            \<and> \<not> fst shared"
    have "uint i < 2 ^ LENGTH(32)"
      by (rule uint_lt2p)
    then have "i \<le> end'"
      using a by (simp add: MAX_SEED_def word_le_def)
    with 1(2) a have "loop hashFunc hash hashLen end' (i + 1) shared = Some y"
      by simp
    from 1(1) [OF this] a show False
      by simp
  qed
qed

lemma seedRecoveryWorker_loop_never_returns:
  assumes "\<And>s. memcmp_zero hash (hashFunc s) hashLen = Inr False" and "\<not> fst shared"
  shows "seedRecoveryWorker_loop hashFunc hash hashLen MAX_SEED i shared = None"
proof (cases "seedRecoveryWorker_loop hashFunc hash hashLen MAX_SEED i shared")
  case None
  then show ?thesis .
next
  case (Some y)
  from seedRecoveryWorker_loop_no_result [OF this] assms show ?thesis
    by simp
qed

text \<open>
  A worker whose range ends below \<open>2 ^ 32 - 1\<close> returns, whatever the hash function does.
\<close>

lemma seedRecoveryWorker_loop_returns:
  assumes "end' \<noteq> MAX_SEED"
  shows "\<exists>r. seedRecoveryWorker_loop hashFunc hash hashLen end' i shared = Some r"
proof (induction "unat end' + 1 - unat i" arbitrary: i shared rule: less_induct)
  case less
  show ?case
  proof (cases "i \<le> end'")
    case False
    then show ?thesis
      by (subst seedRecoveryWorker_loop.simps) simp
  next
    case True
    have "unat end' < 2 ^ LENGTH(32) - 1"
    proof -
      have "unat end' \<noteq> unat MAX_SEED"
        using assms by (simp add: word_unat_eq_iff)
      moreover have "unat end' < 2 ^ LENGTH(32)"
        by (rule unsigned_less)
      ultimately show ?thesis
        by (simp add: MAX_SEED_def)
    qed
    moreover have le: "unat i \<le> unat end'"
      using True by (simp add: word_le_nat_alt)
    ultimately have "unat i + unat (1 :: 32 word) < 2 ^ LENGTH(32)"
      by simp
    then have "unat (i + 1) = unat i + unat (1 :: 32 word)"
      by (simp only: unat_add_lem)
    then have "unat end' + 1 - unat (i + 1) < unat end' + 1 - unat i"
      using le by simp
    from less [OF this]
    have IH: "\<exists>r. seedRecoveryWorker_loop hashFunc hash hashLen end' (i + 1) s = Some r" for s
      by blast
    show ?thesis
    proof (cases "memcmp_zero hash (hashFunc i) hashLen")
      case (Inl f)
      with True show ?thesis
        by (subst seedRecoveryWorker_loop.simps) simp
    next
      case (Inr eq)
      with True IH show ?thesis
        by (subst seedRecoveryWorker_loop.simps) (simp add: Let_def)
    qed
  qed
qed

lemma seedRecoveryWorker_small_range:
  "seedRecoveryWorker
     \<lparr>opt_hash = [1, 0, 0, 0], opt_hashLen = 4, opt_start = 0, opt_end = 2,
      opt_hashFunc = zero_hash\<rparr> (False, 9) = Some (Inr (False, 9))"
  by (simp add: seedRecoveryWorker_def seedRecoveryWorker_loop.simps memcmp_zero_def zero_hash_def)

text \<open>
  Claim C3 fails on the source. A worker whose range ends at \<open>2 ^ 32 - 1\<close> never leaves
  its loop when no seed hashes to the target and the flag stays false: \<^verbatim>\<open>i <= opt->end\<close>
  holds for every \<^verbatim>\<open>unsigned int i\<close>, and \<^verbatim>\<open>i++\<close> wraps around to 0. Here the hash
  function returns the digest \<open>[0, 0, 0, 0]\<close> for every seed and the target is
  \<open>[1, 0, 0, 0]\<close>.
\<close>

theorem seedRecoveryWorker_last_range_loops:
  "seedRecoveryWorker
     \<lparr>opt_hash = [1, 0, 0, 0], opt_hashLen = 4, opt_start = 0, opt_end = MAX_SEED,
      opt_hashFunc = zero_hash\<rparr> (False, 0) = None"
  unfolding seedRecoveryWorker_def
  by (simp add: seedRecoveryWorker_loop_never_returns memcmp_zero_def zero_hash_def)

end
